theory Spec2Isabelle
  imports
    Main
    "HOL-Library.Char_ord"
    "HOL-Library.List_Lexorder"
    "HOL-Library.Multiset"
begin

section \<open>Strings of the blacklist tools\<close>

text \<open>
  The two scripts, \<^verbatim>\<open>scripts/merge_blacklist.py\<close> and
  \<^verbatim>\<open>scripts/validate_blacklist.py\<close>, work on Python \<^verbatim>\<open>str\<close> values. A
  \<^typ>\<open>string\<close> here is a list of characters, and a character stands for the code point
  of the same number, so the model covers text whose code points lie below 256. On that
  range the string methods the scripts call are written out as Python defines them:
  the white space of \<^verbatim>\<open>strip\<close>, the case mapping of \<^verbatim>\<open>lower\<close>, the digits of
  \<^verbatim>\<open>isdigit\<close> (which include the superscripts one, two and three) and the decimal
  digits that \<^verbatim>\<open>int\<close> and the pattern \<^verbatim>\<open>\d\<close> accept.
\<close>

definition code :: "char \<Rightarrow> nat" where
  "code c = of_char c"

text \<open>\<^verbatim>\<open>str.isspace\<close> on one character.\<close>

definition isspace :: "char \<Rightarrow> bool" where
  "isspace c = (code c \<in> {9, 10, 11, 12, 13, 28, 29, 30, 31, 32, 133, 160})"

text \<open>\<^verbatim>\<open>s.lstrip()\<close>, \<^verbatim>\<open>s.rstrip()\<close> and \<^verbatim>\<open>s.strip()\<close> without argument.\<close>

definition lstrip :: "string \<Rightarrow> string" where
  "lstrip s = dropWhile isspace s"

definition rstrip :: "string \<Rightarrow> string" where
  "rstrip s = rev (dropWhile isspace (rev s))"

definition strip :: "string \<Rightarrow> string" where
  "strip s = rstrip (lstrip s)"

text \<open>\<^verbatim>\<open>x.lstrip("-")\<close>: every leading character of the argument's set is removed.\<close>

definition lstrip_chars :: "char set \<Rightarrow> string \<Rightarrow> string" where
  "lstrip_chars cs s = dropWhile (\<lambda>c. c \<in> cs) s"

text \<open>\<^verbatim>\<open>str.lower\<close>: below code point 256 it maps character by character.\<close>

definition lower_char :: "char \<Rightarrow> char" where
  "lower_char c =
     (let n = code c in
      if (65 \<le> n \<and> n \<le> 90) \<or> (192 \<le> n \<and> n \<le> 214) \<or> (216 \<le> n \<and> n \<le> 222)
      then char_of (n + 32) else c)"

definition lower :: "string \<Rightarrow> string" where
  "lower s = map lower_char s"

text \<open>\<^verbatim>\<open>s.startswith(p)\<close>.\<close>

definition startswith :: "string \<Rightarrow> string \<Rightarrow> bool" where
  "startswith s p = (take (length p) s = p)"

text \<open>\<^verbatim>\<open>str.isdigit\<close>: at least one character, each of them a digit.\<close>

definition isdigit_char :: "char \<Rightarrow> bool" where
  "isdigit_char c = ((48 \<le> code c \<and> code c \<le> 57) \<or> code c \<in> {178, 179, 185})"

definition isdigit :: "string \<Rightarrow> bool" where
  "isdigit s = (s \<noteq> [] \<and> list_all isdigit_char s)"

text \<open>The decimal digits, \<^verbatim>\<open>0\<close> to \<^verbatim>\<open>9\<close>.\<close>

definition isdecimal_char :: "char \<Rightarrow> bool" where
  "isdecimal_char c = (48 \<le> code c \<and> code c \<le> 57)"

definition digits_value :: "string \<Rightarrow> int" where
  "digits_value ds = foldl (\<lambda>a c. 10 * a + (int (code c) - 48)) 0 ds"

datatype error = ValueError | UnicodeDecodeError | OSError

text \<open>
  \<^verbatim>\<open>int(x)\<close> on a string, base ten: surrounding white space is dropped, one sign is
  allowed, and the rest is decimal digits, where a single underscore may stand between
  two digits. Anything else raises \<^verbatim>\<open>ValueError\<close>, and so does a text of more digits
  than the interpreter converts, 4300 unless it is configured otherwise; underscores and
  the sign do not count.
\<close>

definition max_str_digits :: nat where
  "max_str_digits = 4300"

fun int_body_ok :: "string \<Rightarrow> bool" where
  "int_body_ok [] = False"
| "int_body_ok [c] = isdecimal_char c"
| "int_body_ok (c # d # cs) =
     (isdecimal_char c \<and>
      (if d = CHR ''_'' then int_body_ok cs else int_body_ok (d # cs)))"

definition int_unsigned :: "string \<Rightarrow> error + int" where
  "int_unsigned body =
     (let digits = filter (\<lambda>c. c \<noteq> CHR ''_'') body in
      if int_body_ok body \<and> length digits \<le> max_str_digits
      then Inr (digits_value digits)
      else Inl ValueError)"

definition py_int :: "string \<Rightarrow> error + int" where
  "py_int x =
     (case strip x of
        [] \<Rightarrow> Inl ValueError
      | c # cs \<Rightarrow>
          if c = CHR ''-'' then map_sum id uminus (int_unsigned cs)
          else if c = CHR ''+'' then int_unsigned cs
          else int_unsigned (c # cs))"

text \<open>\<^verbatim>\<open>sep.join(parts)\<close>.\<close>

fun join :: "string \<Rightarrow> string list \<Rightarrow> string" where
  "join sep [] = []"
| "join sep [p] = p"
| "join sep (p # q # ps) = p @ sep @ join sep (q # ps)"

text \<open>
  \<^verbatim>\<open>line.split("#", 1)\<close> has one or two parts: the text before the first \<^verbatim>\<open>#\<close>, and
  the text after it when there is one.
\<close>

definition before_hash :: "string \<Rightarrow> string" where
  "before_hash s = takeWhile (\<lambda>c. c \<noteq> CHR ''#'') s"

definition after_hash :: "string \<Rightarrow> string" where
  "after_hash s = tl (dropWhile (\<lambda>c. c \<noteq> CHR ''#'') s)"

section \<open>The merge tool\<close>

type_synonym entry = "string \<times> string"

definition split_main_and_comment :: "string \<Rightarrow> string \<times> string" where
  "split_main_and_comment line =
     (if CHR ''#'' \<in> set line
      then (strip (before_hash line), strip (after_hash line))
      else (strip line, []))"

definition normalize_entry :: "string \<Rightarrow> string" where
  "normalize_entry entry =
     (if startswith entry ''@'' then lower (strip entry) else strip entry)"

text \<open>
  The loop of \<^verbatim>\<open>merge_entries\<close>, with its two variables \<^verbatim>\<open>seen\<close> and
  \<^verbatim>\<open>merged\<close> passed along.
\<close>

fun merge_loop :: "string set \<Rightarrow> entry list \<Rightarrow> entry list \<Rightarrow> entry list" where
  "merge_loop seen merged [] = merged"
| "merge_loop seen merged ((e_main, e_comment) # rest) =
     (let norm = normalize_entry e_main in
      if norm \<in> seen then merge_loop seen merged rest
      else merge_loop (insert norm seen)
             (merged @ [(normalize_entry e_main, e_comment)]) rest)"

text \<open>
  The key of the sort is the pair \<^verbatim>\<open>(0, int(x))\<close> or \<^verbatim>\<open>(1, x.lower())\<close>. Python
  compares such pairs by the first component, then by the second, and strings by code
  point, position by position.
\<close>

datatype sortkey = NumKey int | LexKey string

fun key_le :: "sortkey \<Rightarrow> sortkey \<Rightarrow> bool" where
  "key_le (NumKey a) (NumKey b) = (a \<le> b)"
| "key_le (NumKey a) (LexKey t) = True"
| "key_le (LexKey s) (NumKey b) = False"
| "key_le (LexKey s) (LexKey t) = (s \<le> t)"

instantiation sortkey :: linorder
begin

definition less_eq_sortkey :: "sortkey \<Rightarrow> sortkey \<Rightarrow> bool" where
  "less_eq_sortkey k l = key_le k l"

definition less_sortkey :: "sortkey \<Rightarrow> sortkey \<Rightarrow> bool" where
  "less_sortkey k l = (key_le k l \<and> \<not> key_le l k)"

instance
proof
  fix x y z :: sortkey
  show "(x < y) = (x \<le> y \<and> \<not> y \<le> x)"
    by (simp add: less_sortkey_def less_eq_sortkey_def)
  show "x \<le> x"
    by (cases x) (simp_all add: less_eq_sortkey_def)
  show "x \<le> y \<Longrightarrow> y \<le> z \<Longrightarrow> x \<le> z"
    by (cases x; cases y; cases z) (auto simp: less_eq_sortkey_def)
  show "x \<le> y \<Longrightarrow> y \<le> x \<Longrightarrow> x = y"
    by (cases x; cases y) (auto simp: less_eq_sortkey_def)
  show "x \<le> y \<or> y \<le> x"
    by (cases x; cases y) (auto simp: less_eq_sortkey_def)
qed

end

definition sort_key_item :: "entry \<Rightarrow> error + sortkey" where
  "sort_key_item item =
     (let x = fst item in
      if isdigit (lstrip_chars {CHR ''-''} x)
      then map_sum id NumKey (py_int x)
      else Inr (LexKey (lower x)))"

text \<open>
  \<^verbatim>\<open>sorted(xs, key=f)\<close> computes the key of every element first, in order, and
  raises what \<^verbatim>\<open>f\<close> raises; then it sorts by the keys, keeping the order of elements
  whose keys are equal.
\<close>

fun keys_of :: "('a \<Rightarrow> error + 'k) \<Rightarrow> 'a list \<Rightarrow> error + ('k \<times> 'a) list" where
  "keys_of f [] = Inr []"
| "keys_of f (x # xs) =
     (case f x of
        Inl e \<Rightarrow> Inl e
      | Inr k \<Rightarrow> (case keys_of f xs of Inl e \<Rightarrow> Inl e | Inr ks \<Rightarrow> Inr ((k, x) # ks)))"

definition sorted_by :: "('a \<Rightarrow> error + 'k::linorder) \<Rightarrow> 'a list \<Rightarrow> error + 'a list" where
  "sorted_by f xs = map_sum id (\<lambda>ks. map snd (sort_key fst ks)) (keys_of f xs)"

definition merge_entries :: "entry list \<Rightarrow> entry list \<Rightarrow> error + entry list" where
  "merge_entries old new = sorted_by sort_key_item (merge_loop {} [] (old @ new))"

text \<open>
  \<^verbatim>\<open>build_contents\<close>. The clock is an input: \<open>timestamp\<close> is the text that
  \<^verbatim>\<open>datetime.now(timezone.utc).strftime("%Y-%m-%d %H:%M UTC")\<close> returns.
\<close>

definition newline :: char where
  "newline = CHR 0x0A"

definition render_entry :: "entry \<Rightarrow> string" where
  "render_entry item =
     (case item of (main, comment) \<Rightarrow>
        if comment \<noteq> [] then main @ ''  # '' @ comment else main)"

definition build_contents :: "string \<Rightarrow> string list \<Rightarrow> entry list \<Rightarrow> string" where
  "build_contents timestamp header entries =
     (let gen_line = ''# Merged on '' @ timestamp;
          header_filtered = filter (\<lambda>h. \<not> startswith h ''# Merged on '') header;
          header_out = header_filtered @ [gen_line];
          body = join [newline] (map render_entry entries);
          parts = (if header_out \<noteq> [] then [join [newline] header_out] else [])
                  @ (if body \<noteq> [] then [body] else [])
      in join [newline, newline] parts @ [newline])"

text \<open>
  \<^verbatim>\<open>str.splitlines\<close>: a line ends at a line feed, a carriage return (with the line
  feed that follows it, if any), a vertical tab, a form feed, a file, group or record
  separator, or a next-line character; the text after the last of them is a line when it
  is not empty.
\<close>

definition is_linebreak :: "char \<Rightarrow> bool" where
  "is_linebreak c = (code c \<in> {10, 11, 12, 13, 28, 29, 30, 133})"

fun splitlines_from :: "string \<Rightarrow> string \<Rightarrow> string list" where
  "splitlines_from cur [] = (if cur = [] then [] else [cur])"
| "splitlines_from cur [c] = (if is_linebreak c then [cur] else [cur @ [c]])"
| "splitlines_from cur (c # d # cs) =
     (if code c = 13 \<and> code d = 10 then cur # splitlines_from [] cs
      else if is_linebreak c then cur # splitlines_from [] (d # cs)
      else splitlines_from (cur @ [c]) (d # cs))"

definition splitlines :: "string \<Rightarrow> string list" where
  "splitlines s = splitlines_from [] s"

text \<open>
  The file system as \<^verbatim>\<open>read_file\<close> sees it: a path names nothing, or a file whose
  text \<^verbatim>\<open>read_text\<close> returns, or a file whose bytes are not UTF-8, on which
  \<^verbatim>\<open>read_text\<close> raises \<^verbatim>\<open>UnicodeDecodeError\<close>, or something that exists and cannot
  be opened and read, on which it raises \<^verbatim>\<open>OSError\<close>.
\<close>

type_synonym path = string

datatype node = File string | Undecodable | Unreadable

type_synonym filesystem = "path \<Rightarrow> node option"

fun read_loop :: "bool \<Rightarrow> string list \<Rightarrow> entry list \<Rightarrow> string list \<Rightarrow> string list \<times> entry list" where
  "read_loop header_done header entries [] = (header, entries)"
| "read_loop header_done header entries (raw # lines) =
     (let s = rstrip raw in
      if \<not> header_done \<and> (s = [] \<or> startswith s ''#'')
      then read_loop header_done (header @ [s]) entries lines
      else (case split_main_and_comment s of (main, comment) \<Rightarrow>
              if main = [] then read_loop True header entries lines
              else read_loop True header (entries @ [(main, comment)]) lines))"

definition read_file :: "filesystem \<Rightarrow> path \<Rightarrow> error + (string list \<times> entry list)" where
  "read_file fs p =
     (case fs p of
        None \<Rightarrow> Inr ([], [])
      | Some Undecodable \<Rightarrow> Inl UnicodeDecodeError
      | Some Unreadable \<Rightarrow> Inl OSError
      | Some (File text) \<Rightarrow> Inr (read_loop False [] [] (splitlines text)))"

section \<open>The validator\<close>

text \<open>
  The two patterns are applied with \<^verbatim>\<open>match\<close>. The final \<^verbatim>\<open>$\<close> of a pattern
  matches at the end of the text and also before a line feed that ends the text.
\<close>

definition word_char :: "char \<Rightarrow> bool" where
  "word_char c =
     ((65 \<le> code c \<and> code c \<le> 90) \<or> (97 \<le> code c \<and> code c \<le> 122)
      \<or> (48 \<le> code c \<and> code c \<le> 57) \<or> c = CHR ''_'')"

definition before_final_newline :: "string \<Rightarrow> string" where
  "before_final_newline s = (if s \<noteq> [] \<and> last s = newline then butlast s else s)"

definition USERNAME_RE :: "string \<Rightarrow> bool" where
  "USERNAME_RE s =
     (case before_final_newline s of
        [] \<Rightarrow> False
      | c # w \<Rightarrow> c = CHR ''@'' \<and> 5 \<le> length w \<and> length w \<le> 32 \<and> list_all word_char w)"

definition ID_RE :: "string \<Rightarrow> bool" where
  "ID_RE s =
     (let t = before_final_newline s;
          ds = (case t of [] \<Rightarrow> [] | c # cs \<Rightarrow> if c = CHR ''-'' then cs else t)
      in ds \<noteq> [] \<and> list_all isdecimal_char ds)"

type_synonym violation = "nat \<times> string \<times> string"

fun validate_loop :: "nat \<Rightarrow> string set \<Rightarrow> violation list \<Rightarrow> string list \<Rightarrow> violation list" where
  "validate_loop i seen errors [] = errors"
| "validate_loop i seen errors (raw # rest) =
     (let line = strip raw in
      if line = [] \<or> startswith line ''#'' then validate_loop (Suc i) seen errors rest
      else
        let main_part = strip (before_hash line) in
        if main_part = [] then validate_loop (Suc i) seen errors rest
        else
          let key = lower main_part in
          if key \<in> seen
          then validate_loop (Suc i) seen (errors @ [(i, line, ''duplicate'')]) rest
          else if USERNAME_RE main_part then validate_loop (Suc i) (insert key seen) errors rest
          else if ID_RE main_part then validate_loop (Suc i) (insert key seen) errors rest
          else validate_loop (Suc i) (insert key seen)
                 (errors @ [(i, line, ''invalid format'')]) rest)"

definition validate :: "string list \<Rightarrow> violation list" where
  "validate lines = validate_loop 1 {} [] lines"

section \<open>Notions of the specification\<close>

text \<open>
  The composite key in the words of the specification: a value that, after one leading
  \<^verbatim>\<open>-\<close> is taken off, consists entirely of decimal digits is numeric and is keyed by
  its integer value; every other value is keyed by its lowercased text.
\<close>

definition spec_unsigned :: "string \<Rightarrow> string" where
  "spec_unsigned x = (case x of [] \<Rightarrow> [] | c # r \<Rightarrow> if c = CHR ''-'' then r else x)"

definition spec_numeric :: "string \<Rightarrow> bool" where
  "spec_numeric x = (spec_unsigned x \<noteq> [] \<and> list_all isdecimal_char (spec_unsigned x))"

definition spec_sort_key :: "entry \<Rightarrow> sortkey" where
  "spec_sort_key item =
     (let x = fst item in
      if spec_numeric x
      then NumKey (if startswith x ''-'' then - digits_value (spec_unsigned x)
                   else digits_value (spec_unsigned x))
      else LexKey (lower x))"

text \<open>
  The lines of a text are the pieces between its line feeds; a line feed at the very end
  closes the last line and opens no further one.
\<close>

fun split_on :: "char \<Rightarrow> string \<Rightarrow> string list" where
  "split_on c [] = [[]]"
| "split_on c (x # xs) =
     (if x = c then [] # split_on c xs
      else (case split_on c xs of [] \<Rightarrow> [[x]] | l # ls \<Rightarrow> (x # l) # ls))"

definition text_lines :: "string \<Rightarrow> string list" where
  "text_lines s = (let ps = split_on newline s in if last ps = [] then butlast ps else ps)"

definition marker_lines :: "string \<Rightarrow> nat" where
  "marker_lines s = length (filter (\<lambda>l. startswith l ''# Merged on '') (text_lines s))"

definition trailing_newlines :: "string \<Rightarrow> nat" where
  "trailing_newlines s = length (takeWhile (\<lambda>c. c = newline) (rev s))"

text \<open>
  The main part of a line as \<^verbatim>\<open>validate\<close> takes it: none for a line the validator
  skips.
\<close>

definition main_part_of :: "string \<Rightarrow> string option" where
  "main_part_of raw =
     (let line = strip raw in
      if line = [] \<or> startswith line ''#'' then None
      else let main_part = strip (before_hash line) in
           if main_part = [] then None else Some main_part)"

text \<open>
  What one line adds to the state of the validator's loop: its violations, given the
  line number and the keys seen so far, and the keys seen after it.
\<close>

definition line_errors :: "nat \<Rightarrow> string set \<Rightarrow> string \<Rightarrow> violation list" where
  "line_errors i seen raw =
     (case main_part_of raw of
        None \<Rightarrow> []
      | Some m \<Rightarrow>
          if lower m \<in> seen then [(i, strip raw, ''duplicate'')]
          else if USERNAME_RE m \<or> ID_RE m then []
          else [(i, strip raw, ''invalid format'')])"

definition seen_after :: "string set \<Rightarrow> string \<Rightarrow> string set" where
  "seen_after seen raw =
     (case main_part_of raw of None \<Rightarrow> seen | Some m \<Rightarrow> insert (lower m) seen)"

text \<open>What the reader guarantees about each header line and each entry.\<close>

definition clean_line :: "string \<Rightarrow> bool" where
  "clean_line l = (newline \<notin> set l)"

definition clean_entry :: "entry \<Rightarrow> bool" where
  "clean_entry e =
     (fst e \<noteq> [] \<and> strip (fst e) = fst e \<and> lstrip (fst e) = fst e
      \<and> CHR ''#'' \<notin> set (fst e) \<and> newline \<notin> set (fst e) \<and> newline \<notin> set (snd e))"

text \<open>
  The comment of the first entry of a list whose normalized value is the given key: none
  when no entry has that key.
\<close>

definition first_comment :: "string \<Rightarrow> entry list \<Rightarrow> string option" where
  "first_comment k xs = map_option snd (find (\<lambda>e. normalize_entry (fst e) = k) xs)"

section \<open>Facts about the string operations\<close>

lemma code_char_of: "n < 256 \<Longrightarrow> code (char_of n) = n"
  by (simp add: code_def)

lemma isspace_lower_char: "isspace (lower_char c) = isspace c"
  by (auto simp: isspace_def lower_char_def Let_def code_char_of)

lemma lower_char_idem: "lower_char (lower_char c) = lower_char c"
  by (auto simp: lower_char_def Let_def code_char_of)

lemma lower_idem: "lower (lower s) = lower s"
  by (simp add: lower_def lower_char_idem)

lemma dropWhile_isspace_lower:
  "dropWhile isspace (map lower_char s) = map lower_char (dropWhile isspace s)"
  by (induction s) (simp_all add: isspace_lower_char)

lemma strip_lower: "strip (lower s) = lower (strip s)"
  by (simp add: strip_def lstrip_def rstrip_def lower_def dropWhile_isspace_lower rev_map)

lemma rstrip_Cons: "\<not> isspace c \<Longrightarrow> rstrip (c # s) = c # rstrip s"
  by (simp add: rstrip_def dropWhile_append3 dropWhile_append)

lemma rstrip_idem: "rstrip (rstrip s) = rstrip s"
  by (simp add: rstrip_def)

lemma lstrip_idem: "lstrip (lstrip s) = lstrip s"
  by (simp add: lstrip_def)

lemma lstrip_fixed_Cons: "lstrip (c # r) = c # r \<longleftrightarrow> \<not> isspace c"
proof
  assume h: "lstrip (c # r) = c # r"
  show "\<not> isspace c"
  proof
    assume "isspace c"
    with h have "dropWhile isspace r = c # r" by (simp add: lstrip_def)
    then have "length (c # r) \<le> length r" by (metis length_dropWhile_le)
    then show False by simp
  qed
qed (simp add: lstrip_def)

lemma lstrip_rstrip: "lstrip s = s \<Longrightarrow> lstrip (rstrip s) = rstrip s"
proof (cases s)
  case Nil
  then show ?thesis by (simp add: lstrip_def rstrip_def)
next
  case (Cons c r)
  assume "lstrip s = s"
  with Cons have "\<not> isspace c" by (simp add: lstrip_fixed_Cons)
  then show ?thesis by (simp add: Cons rstrip_Cons lstrip_fixed_Cons)
qed

lemma strip_idem: "strip (strip s) = strip s"
  by (simp add: strip_def lstrip_rstrip lstrip_idem rstrip_idem)

lemma lower_char_at: "lower_char CHR ''@'' = CHR ''@''"
  by code_simp

lemma startswith_at: "startswith s ''@'' = (case s of [] \<Rightarrow> False | c # _ \<Rightarrow> c = CHR ''@'')"
  by (cases s) (simp_all add: startswith_def)

lemma normalize_entry_idem:
  assumes "lstrip e = e"
  shows "normalize_entry (normalize_entry e) = normalize_entry e"
proof (cases e)
  case Nil
  then show ?thesis
    by (simp add: normalize_entry_def startswith_at strip_def lstrip_def rstrip_def)
next
  case (Cons c r)
  with assms have nsp: "\<not> isspace c" by (simp add: lstrip_fixed_Cons)
  have st: "strip e = c # rstrip r"
    using assms nsp Cons by (simp add: strip_def rstrip_Cons)
  show ?thesis
  proof (cases "c = CHR ''@''")
    case True
    then have "normalize_entry e = lower (strip e)"
      by (simp add: normalize_entry_def startswith_at Cons)
    moreover have "startswith (lower (strip e)) ''@''"
      by (simp add: st lower_def startswith_at True lower_char_at)
    ultimately show ?thesis
      by (simp add: normalize_entry_def strip_lower strip_idem lower_idem)
  next
    case False
    then have "normalize_entry e = strip e"
      by (simp add: normalize_entry_def startswith_at Cons)
    moreover have "\<not> startswith (strip e) ''@''"
      by (simp add: st startswith_at False)
    ultimately show ?thesis
      by (simp add: normalize_entry_def strip_idem)
  qed
qed

section \<open>Facts about the merge loop and the sort\<close>

lemma merge_loop_values:
  "fst ` set (merge_loop seen merged xs) =
     fst ` set merged \<union> (normalize_entry ` fst ` set xs - seen)"
proof (induction xs arbitrary: seen merged)
  case Nil
  then show ?case by simp
next
  case (Cons x xs)
  obtain m c where x: "x = (m, c)" by (cases x)
  show ?case
    unfolding x by (auto simp: Cons.IH Let_def)
qed

lemma merge_loop_distinct:
  "distinct (map fst merged) \<Longrightarrow> fst ` set merged \<subseteq> seen \<Longrightarrow>
   distinct (map fst (merge_loop seen merged xs))"
proof (induction xs arbitrary: seen merged)
  case Nil
  then show ?case by simp
next
  case (Cons x xs)
  obtain m c where x: "x = (m, c)" by (cases x)
  show ?case
  proof (cases "normalize_entry m \<in> seen")
    case True
    then show ?thesis using Cons by (simp add: x Let_def)
  next
    case False
    have d: "distinct (map fst (merged @ [(normalize_entry m, c)]))"
      using Cons.prems False by auto
    have s: "fst ` set (merged @ [(normalize_entry m, c)]) \<subseteq> insert (normalize_entry m) seen"
      using Cons.prems by auto
    show ?thesis
      using Cons.IH [OF d s] False by (simp add: x Let_def)
  qed
qed

lemma keys_of_Inr:
  "(\<And>x. x \<in> set xs \<Longrightarrow> f x = Inr (g x)) \<Longrightarrow> keys_of f xs = Inr (map (\<lambda>x. (g x, x)) xs)"
  by (induction xs) simp_all

lemma keys_of_Inl:
  "x \<in> set xs \<Longrightarrow> f x = Inl e \<Longrightarrow> \<exists>e'. keys_of f xs = Inl e'"
  by (induction xs) (auto split: sum.splits)

lemma keys_of_Inl_source:
  "keys_of f xs = Inl e \<Longrightarrow> \<exists>x \<in> set xs. f x = Inl e"
  by (induction xs arbitrary: e) (auto split: sum.splits)

lemma keys_of_Inr_all:
  "keys_of f xs = Inr ks \<Longrightarrow> x \<in> set xs \<Longrightarrow> \<exists>k. f x = Inr k"
  by (induction xs arbitrary: ks) (auto split: sum.splits)

lemma insort_key_decorated:
  "insort_key fst (g x, x) (map (\<lambda>y. (g y, y)) ys) = map (\<lambda>y. (g y, y)) (insort_key g x ys)"
  by (induction ys) simp_all

lemma sort_key_decorated:
  "sort_key fst (map (\<lambda>y. (g y, y)) xs) = map (\<lambda>y. (g y, y)) (sort_key g xs)"
  by (induction xs) (simp_all add: insort_key_decorated)

lemma sorted_by_Inr:
  assumes "\<And>x. x \<in> set xs \<Longrightarrow> f x = Inr (g x)"
  shows "sorted_by f xs = Inr (sort_key g xs)"
  by (simp add: sorted_by_def keys_of_Inr [OF assms] sort_key_decorated comp_def)

lemma sorted_by_cases:
  "(sorted_by f xs = Inr (sort_key (\<lambda>x. projr (f x)) xs) \<and> (\<forall>x \<in> set xs. \<exists>k. f x = Inr k))
   \<or> (\<exists>e. sorted_by f xs = Inl e \<and> (\<exists>x \<in> set xs. f x = Inl e))"
proof (cases "keys_of f xs")
  case (Inl e)
  then show ?thesis
    using keys_of_Inl_source [OF Inl] by (auto simp: sorted_by_def)
next
  case (Inr ks)
  then have all: "\<forall>x \<in> set xs. \<exists>k. f x = Inr k"
    using keys_of_Inr_all by fastforce
  then have "\<And>x. x \<in> set xs \<Longrightarrow> f x = Inr (projr (f x))" by force
  then have "sorted_by f xs = Inr (sort_key (\<lambda>x. projr (f x)) xs)"
    by (rule sorted_by_Inr)
  with all show ?thesis by blast
qed

lemma sort_key_item_error: "sort_key_item item = Inl e \<Longrightarrow> e = ValueError"
  by (auto simp: sort_key_item_def py_int_def int_unsigned_def Let_def
      split: if_splits list.splits)

lemma merge_entries_cases:
  "(merge_entries old new =
      Inr (sort_key (\<lambda>x. projr (sort_key_item x)) (merge_loop {} [] (old @ new)))
    \<and> (\<forall>x \<in> set (merge_loop {} [] (old @ new)). \<exists>k. sort_key_item x = Inr k))
   \<or> (merge_entries old new = Inl ValueError
      \<and> (\<exists>x \<in> set (merge_loop {} [] (old @ new)). sort_key_item x = Inl ValueError))"
  using sorted_by_cases [of sort_key_item "merge_loop {} [] (old @ new)"]
  unfolding merge_entries_def by (metis sort_key_item_error)

lemma merge_entries_values:
  assumes "merge_entries old new = Inr out"
  shows "distinct (map fst out)" and "fst ` set out = normalize_entry ` fst ` set (old @ new)"
proof -
  let ?M = "merge_loop {} [] (old @ new)"
  from assms merge_entries_cases [of old new]
  have out: "out = sort_key (\<lambda>x. projr (sort_key_item x)) ?M" by auto
  have "distinct (map fst ?M)" by (rule merge_loop_distinct) simp_all
  moreover have "mset (map fst out) = mset (map fst ?M)" by (simp add: out)
  ultimately show "distinct (map fst out)"
    by (metis mset_eq_imp_distinct_iff)
  show "fst ` set out = normalize_entry ` fst ` set (old @ new)"
    using merge_loop_values [of "{}" "[]" "old @ new"] by (simp add: out)
qed

section \<open>The sort key of the code and the key of the specification\<close>

lemma not_isdigit_signs:
  "\<not> isdigit_char CHR ''-''" "\<not> isdigit_char CHR ''+''" "\<not> isdigit_char CHR ''_''"
  by code_simp+

lemma not_isspace_minus: "\<not> isspace CHR ''-''"
  by code_simp

lemma isdigit_not_isspace: "isdigit_char c \<Longrightarrow> \<not> isspace c"
  by (auto simp: isdigit_char_def isspace_def)

lemma isdecimal_isdigit: "isdecimal_char c \<Longrightarrow> isdigit_char c"
  by (simp add: isdecimal_char_def isdigit_char_def)

lemma strip_no_space:
  assumes "\<forall>c \<in> set s. \<not> isspace c"
  shows "strip s = s"
proof (cases s rule: rev_cases)
  case Nil
  then show ?thesis by (simp add: strip_def lstrip_def rstrip_def)
next
  case (snoc r c)
  with assms have "\<not> isspace c" by simp
  moreover have "lstrip s = s"
    using assms by (cases s) (simp_all add: lstrip_def)
  ultimately show ?thesis by (simp add: strip_def rstrip_def snoc)
qed

lemma int_body_ok_plain:
  "int_body_ok s \<Longrightarrow> CHR ''_'' \<notin> set s \<Longrightarrow> list_all isdecimal_char s"
  by (induction s rule: int_body_ok.induct) (auto split: if_splits)

lemma int_body_ok_hd: "int_body_ok s \<Longrightarrow> s \<noteq> [] \<and> isdecimal_char (hd s)"
  by (induction s rule: int_body_ok.induct) auto

lemma decimal_int_body_ok: "s \<noteq> [] \<Longrightarrow> list_all isdecimal_char s \<Longrightarrow> int_body_ok s"
proof (induction s rule: int_body_ok.induct)
  case (3 c d cs)
  then have "d \<noteq> CHR ''_''" using isdecimal_isdigit not_isdigit_signs(3) by auto
  with 3 show ?case by simp
qed simp_all

lemma lstrip_chars_digit_hd:
  "s \<noteq> [] \<Longrightarrow> isdigit_char (hd s) \<Longrightarrow> lstrip_chars {CHR ''-''} s = s"
  using not_isdigit_signs(1) by (cases s) (auto simp: lstrip_chars_def)

lemma isdigit_no_underscore: "list_all isdigit_char s \<Longrightarrow> CHR ''_'' \<notin> set s"
  using not_isdigit_signs(3) by (auto simp: list_all_iff)

lemma isdigit_filter_id: "list_all isdigit_char s \<Longrightarrow> filter (\<lambda>c. c \<noteq> CHR ''_'') s = s"
  using isdigit_no_underscore by (simp add: filter_id_conv) blast

lemma dashes_digits_no_space:
  assumes "isdigit (lstrip_chars {CHR ''-''} x)"
  shows "\<forall>c \<in> set x. \<not> isspace c"
proof
  fix c assume c: "c \<in> set x"
  have "x = takeWhile (\<lambda>c. c \<in> {CHR ''-''}) x @ lstrip_chars {CHR ''-''} x"
    by (simp add: lstrip_chars_def)
  then have "c \<in> set (takeWhile (\<lambda>c. c \<in> {CHR ''-''}) x) \<or> c \<in> set (lstrip_chars {CHR ''-''} x)"
    using c by (metis Un_iff set_append)
  then show "\<not> isspace c"
  proof
    assume "c \<in> set (takeWhile (\<lambda>c. c \<in> {CHR ''-''}) x)"
    then have "c = CHR ''-''" by (auto dest: set_takeWhileD)
    then show ?thesis by (simp add: not_isspace_minus)
  next
    assume "c \<in> set (lstrip_chars {CHR ''-''} x)"
    with assms show ?thesis by (auto simp: isdigit_def list_all_iff isdigit_not_isspace)
  qed
qed

lemma sort_key_item_spec:
  assumes "sort_key_item item = Inr k"
  shows "spec_sort_key item = k"
proof -
  obtain x cm where item: "item = (x, cm)" by (cases item)
  show ?thesis
  proof (cases "isdigit (lstrip_chars {CHR ''-''} x)")
    case True
    then obtain n where n: "py_int x = Inr n" and k: "k = NumKey n"
      using assms by (cases "py_int x") (auto simp: sort_key_item_def item)
    have sx: "strip x = x" using dashes_digits_no_space [OF True] by (rule strip_no_space)
    from True have "x \<noteq> []" by (auto simp: isdigit_def lstrip_chars_def)
    then obtain c cs where x: "x = c # cs" by (cases x) auto
    have pi: "py_int x =
        (if c = CHR ''-'' then map_sum id uminus (int_unsigned cs)
         else if c = CHR ''+'' then int_unsigned cs else int_unsigned (c # cs))"
      unfolding py_int_def sx unfolding x by simp
    show ?thesis
    proof (cases "c = CHR ''-''")
      case minus: True
      from n obtain n' where n': "int_unsigned cs = Inr n'" and nn: "n = - n'"
        using pi by (cases "int_unsigned cs") (auto simp: minus)
      from n' have ok: "int_body_ok cs" and v: "n' = digits_value (filter (\<lambda>c. c \<noteq> CHR ''_'') cs)"
        by (auto simp: int_unsigned_def Let_def split: if_splits)
      from int_body_ok_hd [OF ok] have ne: "cs \<noteq> []" and hd: "isdigit_char (hd cs)"
        by (auto intro: isdecimal_isdigit)
      have "lstrip_chars {CHR ''-''} x = lstrip_chars {CHR ''-''} cs"
        by (simp add: lstrip_chars_def x minus)
      also have "\<dots> = cs" using ne hd by (rule lstrip_chars_digit_hd)
      finally have dg: "list_all isdigit_char cs" using True by (simp add: isdigit_def)
      have dec: "list_all isdecimal_char cs"
        using ok isdigit_no_underscore [OF dg] by (rule int_body_ok_plain)
      have u: "spec_unsigned x = cs" by (simp add: spec_unsigned_def x minus)
      have v': "n = - digits_value cs" using nn v isdigit_filter_id [OF dg] by simp
      have "startswith x ''-''" by (simp add: startswith_def x minus)
      then show ?thesis
        using ne dec by (simp add: spec_sort_key_def item spec_numeric_def k v' u)
    next
      case False
      then have l: "lstrip_chars {CHR ''-''} x = x" by (simp add: lstrip_chars_def x)
      with True have dg: "list_all isdigit_char x" by (simp add: isdigit_def)
      then have "c \<noteq> CHR ''+''" using not_isdigit_signs(2) by (auto simp: x)
      with n False pi have "int_unsigned x = Inr n" by (simp add: x)
      then have ok: "int_body_ok x" and v: "n = digits_value (filter (\<lambda>c. c \<noteq> CHR ''_'') x)"
        by (auto simp: int_unsigned_def Let_def split: if_splits)
      have dec: "list_all isdecimal_char x"
        using ok isdigit_no_underscore [OF dg] by (rule int_body_ok_plain)
      have u: "spec_unsigned x = x" using False by (simp add: spec_unsigned_def x)
      have v': "n = digits_value x" using v isdigit_filter_id [OF dg] by simp
      have "\<not> startswith x ''-''" using False by (simp add: startswith_def x)
      then show ?thesis
        using dec \<open>x \<noteq> []\<close>
        by (simp add: spec_sort_key_def item spec_numeric_def k v' u)
    qed
  next
    case False
    then have k: "k = LexKey (lower x)" using assms by (simp add: sort_key_item_def item)
    have "\<not> spec_numeric x"
    proof
      assume sn: "spec_numeric x"
      then have ne: "spec_unsigned x \<noteq> []" and dec: "list_all isdecimal_char (spec_unsigned x)"
        by (simp_all add: spec_numeric_def)
      then have hd: "isdigit_char (hd (spec_unsigned x))"
        by (cases "spec_unsigned x") (auto intro: isdecimal_isdigit)
      have "lstrip_chars {CHR ''-''} x = lstrip_chars {CHR ''-''} (spec_unsigned x)"
        by (cases x) (auto simp: spec_unsigned_def lstrip_chars_def)
      also have "\<dots> = spec_unsigned x" using ne hd by (rule lstrip_chars_digit_hd)
      finally have "isdigit (lstrip_chars {CHR ''-''} x)"
        using ne dec by (auto simp: isdigit_def list_all_iff intro: isdecimal_isdigit)
      with False show False by simp
    qed
    then show ?thesis by (simp add: spec_sort_key_def item k)
  qed
qed

lemma insort_key_agree:
  "f x = g x \<Longrightarrow> (\<And>y. y \<in> set ys \<Longrightarrow> f y = g y) \<Longrightarrow> insort_key f x ys = insort_key g x ys"
  by (induction ys) simp_all

lemma sort_key_agree:
  "(\<And>x. x \<in> set xs \<Longrightarrow> f x = g x) \<Longrightarrow> sort_key f xs = sort_key g xs"
proof (induction xs)
  case Nil
  then show ?case by simp
next
  case (Cons x xs)
  then have "sort_key f xs = sort_key g xs" by simp
  moreover have "insort_key f x (sort_key g xs) = insort_key g x (sort_key g xs)"
    using Cons.prems by (intro insort_key_agree) simp_all
  ultimately show ?case by simp
qed

lemma merge_entries_sorted_by_spec_key:
  assumes "merge_entries old new = Inr out"
  shows "out = sort_key spec_sort_key (merge_loop {} [] (old @ new))"
proof -
  let ?M = "merge_loop {} [] (old @ new)"
  from assms merge_entries_cases [of old new]
  have out: "out = sort_key (\<lambda>x. projr (sort_key_item x)) ?M"
    and ok: "\<forall>x \<in> set ?M. \<exists>k. sort_key_item x = Inr k"
    by auto
  have "projr (sort_key_item x) = spec_sort_key x" if "x \<in> set ?M" for x
  proof -
    from ok that obtain k where k: "sort_key_item x = Inr k" by blast
    from sort_key_item_spec [OF k] k show ?thesis by simp
  qed
  then show ?thesis unfolding out by (rule sort_key_agree)
qed

lemma merge_entries_spec_example:
  "merge_entries [] [(''10'', ''''), (''@zeta'', ''''), (''2'', ''''), (''@alpha'', '''')]
     = Inr [(''2'', ''''), (''10'', ''''), (''@alpha'', ''''), (''@zeta'', '''')]"
  by code_simp

section \<open>Lines of a joined text\<close>

lemma split_on_nonempty: "split_on c s \<noteq> []"
  by (induction s) (auto split: list.splits)

lemma split_on_absent: "c \<notin> set a \<Longrightarrow> split_on c a = [a]"
  by (induction a) auto

lemma split_on_append: "c \<notin> set a \<Longrightarrow> split_on c (a @ c # b) = a # split_on c b"
  by (induction a) auto

lemma split_on_join:
  "xs \<noteq> [] \<Longrightarrow> \<forall>x \<in> set xs. c \<notin> set x \<Longrightarrow>
   split_on c (join [c] xs @ c # rest) = xs @ split_on c rest"
proof (induction "[c]" xs rule: join.induct)
  case 1
  then show ?case by simp
next
  case (2 p)
  then show ?case by (simp add: split_on_append)
next
  case (3 p q ps)
  then show ?case by (simp add: split_on_append)
qed

lemma last_join:
  "xs \<noteq> [] \<Longrightarrow> last xs \<noteq> [] \<Longrightarrow> join sep xs \<noteq> [] \<and> last (join sep xs) = last (last xs)"
  by (induction sep xs rule: join.induct) auto

lemma trailing_newlines_one:
  "b \<noteq> [] \<Longrightarrow> last b \<noteq> newline \<Longrightarrow> trailing_newlines (b @ [newline]) = 1"
  by (cases b rule: rev_cases) (simp_all add: trailing_newlines_def)

lemma startswith_hash: "startswith l ''# Merged on '' \<Longrightarrow> startswith l ''#''"
  by (cases l) (auto simp: startswith_def)

lemma render_entry_props:
  assumes "fst e \<noteq> []" "\<not> startswith (fst e) ''#''"
    "newline \<notin> set (fst e)" "newline \<notin> set (snd e)"
  shows "render_entry e \<noteq> []" "\<not> startswith (render_entry e) ''# Merged on ''"
    "newline \<notin> set (render_entry e)"
proof -
  obtain m c where e: "e = (m, c)" by (cases e)
  from assms(1) obtain a r where m: "m = a # r" by (cases m) (auto simp: e)
  show "render_entry e \<noteq> []" by (simp add: render_entry_def e m)
  have "\<not> startswith (render_entry e) ''#''"
    using assms(2) by (simp add: render_entry_def e m startswith_def)
  then show "\<not> startswith (render_entry e) ''# Merged on ''"
    using startswith_hash by blast
  show "newline \<notin> set (render_entry e)"
    using assms(3,4) by (auto simp: render_entry_def e newline_def)
qed

section \<open>The loop of the validator, line by line\<close>

lemma validate_loop_append:
  "validate_loop i seen (es @ es') ls = es @ validate_loop i seen es' ls"
proof (induction ls arbitrary: i seen es')
  case Nil
  then show ?case by simp
next
  case (Cons raw rest)
  have a: "validate_loop k s (es @ es' @ [e]) rest = es @ validate_loop k s (es' @ [e]) rest"
    for k s e
    using Cons.IH [of k s "es' @ [e]"] by simp
  show ?case
    by (simp add: Let_def Cons.IH a)
qed

lemma validate_loop_Cons:
  "validate_loop i seen [] (raw # rest) =
     line_errors i seen raw @ validate_loop (Suc i) (seen_after seen raw) [] rest"
proof -
  have one: "validate_loop k s [e] rest = [e] @ validate_loop k s [] rest" for k s e
    using validate_loop_append [of k s "[e]" "[]" rest] by simp
  show ?thesis
    by (auto simp: Let_def line_errors_def seen_after_def main_part_of_def one insert_absorb)
qed

lemma line_errors_fst: "e \<in> set (line_errors i seen raw) \<Longrightarrow> fst e = i"
  by (auto simp: line_errors_def split: option.splits if_splits)

lemma line_errors_distinct: "distinct (map fst (line_errors i seen raw))"
  by (auto simp: line_errors_def split: option.splits)

lemma validate_loop_numbers:
  "e \<in> set (validate_loop i seen [] ls) \<Longrightarrow> i \<le> fst e"
proof (induction ls arbitrary: i seen)
  case Nil
  then show ?case by simp
next
  case (Cons raw rest)
  from Cons.prems have "e \<in> set (line_errors i seen raw)
      \<or> e \<in> set (validate_loop (Suc i) (seen_after seen raw) [] rest)"
    by (simp only: validate_loop_Cons set_append Un_iff)
  then show ?case
  proof
    assume "e \<in> set (line_errors i seen raw)"
    then show ?thesis by (simp add: line_errors_fst)
  next
    assume "e \<in> set (validate_loop (Suc i) (seen_after seen raw) [] rest)"
    from Cons.IH [OF this] show ?thesis by simp
  qed
qed

lemma validate_loop_distinct: "distinct (map fst (validate_loop i seen [] ls))"
proof (induction ls arbitrary: i seen)
  case Nil
  then show ?case by simp
next
  case (Cons raw rest)
  have "fst ` set (line_errors i seen raw)
      \<inter> fst ` set (validate_loop (Suc i) (seen_after seen raw) [] rest) = {}"
  proof (rule ccontr)
    assume "\<not> ?thesis"
    then obtain k where k1: "k \<in> fst ` set (line_errors i seen raw)"
      and k2: "k \<in> fst ` set (validate_loop (Suc i) (seen_after seen raw) [] rest)"
      by blast
    from k1 obtain a where ka: "k = fst a" and a: "a \<in> set (line_errors i seen raw)"
      by (rule imageE)
    from k2 obtain b where kb: "k = fst b"
      and b: "b \<in> set (validate_loop (Suc i) (seen_after seen raw) [] rest)"
      by (rule imageE)
    from ka kb have eq: "fst a = fst b" by simp
    from line_errors_fst [OF a] validate_loop_numbers [OF b] eq show False by simp
  qed
  then show ?case
    by (simp only: validate_loop_Cons map_append distinct_append set_map
        line_errors_distinct Cons.IH)
qed

lemma validate_loop_duplicate:
  assumes "j < length ls" and "main_part_of (ls ! j) = Some m'"
    and "lower m' \<in> seen \<or> (\<exists>i<j. \<exists>m. main_part_of (ls ! i) = Some m \<and> lower m = lower m')"
  shows "(i0 + j, strip (ls ! j), ''duplicate'') \<in> set (validate_loop i0 seen [] ls)"
  using assms
proof (induction ls arbitrary: i0 seen j)
  case Nil
  then show ?case by simp
next
  case (Cons raw rest)
  show ?case
  proof (cases j)
    case 0
    with Cons.prems have "main_part_of raw = Some m'" and "lower m' \<in> seen" by simp_all
    then have "line_errors i0 seen raw = [(i0, strip raw, ''duplicate'')]"
      by (simp add: line_errors_def)
    then show ?thesis by (simp only: validate_loop_Cons 0) simp
  next
    case (Suc j')
    from Cons.prems Suc have len: "j' < length rest"
      and mp: "main_part_of (rest ! j') = Some m'"
      by simp_all
    have step: "lower m' \<in> seen_after seen raw
        \<or> (\<exists>i<j'. \<exists>m. main_part_of (rest ! i) = Some m \<and> lower m = lower m')"
    proof -
      from Cons.prems(3) show ?thesis
      proof
        assume "lower m' \<in> seen"
        then show ?thesis by (auto simp: seen_after_def split: option.splits)
      next
        assume "\<exists>i<j. \<exists>m. main_part_of ((raw # rest) ! i) = Some m \<and> lower m = lower m'"
        then obtain i m where i: "i < j" and m: "main_part_of ((raw # rest) ! i) = Some m"
          and eq: "lower m = lower m'"
          by blast
        show ?thesis
        proof (cases i)
          case 0
          with m have "main_part_of raw = Some m" by simp
          then show ?thesis using eq by (simp add: seen_after_def)
        next
          case (Suc i')
          with i m \<open>j = Suc j'\<close> have "i' < j'" and "main_part_of (rest ! i') = Some m"
            by simp_all
          with eq show ?thesis by blast
        qed
      qed
    qed
    from Cons.IH [OF len mp step, of "Suc i0"]
    have "(Suc i0 + j', strip (rest ! j'), ''duplicate'')
        \<in> set (validate_loop (Suc i0) (seen_after seen raw) [] rest)" .
    then show ?thesis by (simp only: validate_loop_Cons Suc) simp
  qed
qed



lemma validate_Foo_foo:
  "validate [''@Foo'', ''@foo''] = [(1, ''@Foo'', ''invalid format''), (2, ''@foo'', ''duplicate'')]"
  by code_simp

section \<open>What the reader and the merge hand on\<close>

lemma set_rstrip: "set (rstrip s) \<subseteq> set s"
  unfolding rstrip_def using set_dropWhileD by fastforce

lemma set_lstrip: "set (lstrip s) \<subseteq> set s"
  unfolding lstrip_def using set_dropWhileD by fastforce

lemma set_strip: "set (strip s) \<subseteq> set s"
  unfolding strip_def using set_rstrip set_lstrip by blast

lemma strip_fixed: "strip (strip s) = strip s \<and> lstrip (strip s) = strip s"
  by (simp add: strip_idem) (simp add: strip_def lstrip_rstrip lstrip_idem)

lemma before_hash_no_hash: "CHR ''#'' \<notin> set (before_hash s)"
  unfolding before_hash_def by (auto dest: set_takeWhileD)

lemma set_before_hash: "set (before_hash s) \<subseteq> set s"
  unfolding before_hash_def by (auto dest: set_takeWhileD)

lemma set_after_hash: "set (after_hash s) \<subseteq> set s"
  unfolding after_hash_def
  by (metis (no_types, lifting) list.set_sel(2) set_dropWhileD subsetI tl_Nil)

lemma split_main_and_comment_props:
  assumes "split_main_and_comment s = (main, comment)"
  shows "strip main = main" "lstrip main = main" "CHR ''#'' \<notin> set main"
    "set main \<subseteq> set s" "set comment \<subseteq> set s"
proof -
  from assms have m: "main = strip (before_hash s) \<or> (CHR ''#'' \<notin> set s \<and> main = strip s)"
    by (auto simp: split_main_and_comment_def split: if_splits)
  then show "strip main = main" "lstrip main = main" using strip_fixed by auto
  from m show "CHR ''#'' \<notin> set main"
    using set_strip before_hash_no_hash by blast
  from m show "set main \<subseteq> set s"
    using set_strip set_before_hash by blast
  from assms show "set comment \<subseteq> set s"
    using set_strip set_after_hash by (auto simp: split_main_and_comment_def split: if_splits)
qed

lemma splitlines_from_chars:
  "l \<in> set (splitlines_from cur s) \<Longrightarrow> c \<in> set l \<Longrightarrow> c \<in> set cur \<or> \<not> is_linebreak c"
  by (induction cur s arbitrary: l rule: splitlines_from.induct) (auto split: if_splits)

lemma splitlines_no_linebreak:
  "l \<in> set (splitlines s) \<Longrightarrow> c \<in> set l \<Longrightarrow> \<not> is_linebreak c"
  unfolding splitlines_def using splitlines_from_chars by fastforce

lemma is_linebreak_newline: "is_linebreak newline"
  by code_simp

lemma read_loop_clean:
  assumes "\<forall>l \<in> set lines. clean_line l"
    and "\<forall>h \<in> set header. clean_line h" and "\<forall>e \<in> set entries. clean_entry e"
    and "read_loop done header entries lines = (header', entries')"
  shows "(\<forall>h \<in> set header'. clean_line h) \<and> (\<forall>e \<in> set entries'. clean_entry e)"
  using assms
proof (induction lines arbitrary: "done" header entries)
  case Nil
  then show ?case by simp
next
  case (Cons raw lines)
  let ?s = "rstrip raw"
  have raw: "clean_line raw" and rest: "\<forall>l \<in> set lines. clean_line l"
    using Cons.prems(1) by simp_all
  have s: "clean_line ?s" using raw set_rstrip unfolding clean_line_def by blast
  show ?case
  proof (cases "\<not> done \<and> (?s = [] \<or> startswith ?s ''#'')")
    case True
    then have eq: "read_loop done (header @ [?s]) entries lines = (header', entries')"
      using Cons.prems(4) by (simp add: Let_def)
    have "\<forall>h \<in> set (header @ [?s]). clean_line h" using Cons.prems(2) s by simp
    from Cons.IH [OF rest this Cons.prems(3) eq] show ?thesis .
  next
    case False
    obtain main comment where mc: "split_main_and_comment ?s = (main, comment)"
      by (cases "split_main_and_comment ?s")
    show ?thesis
    proof (cases "main = []")
      case True
      then have eq: "read_loop True header entries lines = (header', entries')"
        using Cons.prems(4) False mc by (simp add: Let_def)
      from Cons.IH [OF rest Cons.prems(2) Cons.prems(3) eq] show ?thesis .
    next
      case ne: False
      then have eq: "read_loop True header (entries @ [(main, comment)]) lines = (header', entries')"
        using Cons.prems(4) False mc by (simp add: Let_def)
      have "clean_entry (main, comment)"
        using split_main_and_comment_props [OF mc] ne s
        unfolding clean_entry_def clean_line_def by auto
      then have "\<forall>e \<in> set (entries @ [(main, comment)]). clean_entry e"
        using Cons.prems(3) by simp
      from Cons.IH [OF rest Cons.prems(2) this eq] show ?thesis .
    qed
  qed
qed

lemma read_file_clean:
  assumes "read_file fs p = Inr (header, entries)"
  shows "(\<forall>h \<in> set header. clean_line h) \<and> (\<forall>e \<in> set entries. clean_entry e)"
proof (cases "fs p")
  case None
  with assms show ?thesis by (simp add: read_file_def)
next
  case (Some nd)
  show ?thesis
  proof (cases nd)
    case (File content)
    with Some assms have eq: "read_loop False [] [] (splitlines content) = (header, entries)"
      by (simp add: read_file_def)
    have "\<forall>l \<in> set (splitlines content). clean_line l"
      unfolding clean_line_def using splitlines_no_linebreak is_linebreak_newline by blast
    from read_loop_clean [OF this _ _ eq] show ?thesis by simp
  next
    case Undecodable
    with Some assms show ?thesis by (simp add: read_file_def)
  next
    case Unreadable
    with Some assms show ?thesis by (simp add: read_file_def)
  qed
qed

lemma lower_char_low: "code (lower_char c) < 97 \<Longrightarrow> lower_char c = c"
  by (auto simp: lower_char_def Let_def code_char_of split: if_splits)

lemma lower_keeps_absent:
  assumes "code a < 97" and "a \<notin> set s"
  shows "a \<notin> set (lower s)"
proof
  assume "a \<in> set (lower s)"
  then obtain c where c: "c \<in> set s" and a: "a = lower_char c" by (auto simp: lower_def)
  from assms(1) a have "code (lower_char c) < 97" by simp
  then have "lower_char c = c" by (rule lower_char_low)
  with a c assms(2) show False by simp
qed

lemma normalize_entry_clean:
  assumes "clean_entry (v, c)"
  shows "clean_entry (normalize_entry v, c)"
proof -
  from assms have ne: "v \<noteq> []" and st: "strip v = v" and nh: "CHR ''#'' \<notin> set v"
    and nn: "newline \<notin> set v" and nc: "newline \<notin> set c"
    by (simp_all add: clean_entry_def)
  have ch: "code CHR ''#'' < 97" by code_simp
  have cn: "code newline < 97" by code_simp
  have fx: "strip (normalize_entry v) = normalize_entry v
      \<and> lstrip (normalize_entry v) = normalize_entry v"
  proof (cases "startswith v ''@''")
    case True
    then have n: "normalize_entry v = lower (strip v)" by (simp add: normalize_entry_def)
    have "strip (lower (strip v)) = lower (strip v)" by (simp add: strip_lower strip_idem)
    moreover have "lstrip (lower (strip v)) = lower (strip v)"
      using strip_fixed [of v]
      by (simp add: lstrip_def lower_def dropWhile_isspace_lower)
    ultimately show ?thesis by (simp add: n)
  next
    case False
    then show ?thesis using strip_fixed by (simp add: normalize_entry_def)
  qed
  have cs: "normalize_entry v = lower v \<or> normalize_entry v = v"
    by (simp add: normalize_entry_def st)
  have keep: "a \<notin> set (normalize_entry v)" if "code a < 97" and "a \<notin> set v" for a
  proof (cases "normalize_entry v = lower v")
    case True
    then show ?thesis using lower_keeps_absent [OF that] by simp
  next
    case False
    with cs have "normalize_entry v = v" by simp
    then show ?thesis using that(2) by simp
  qed
  from cs have "normalize_entry v \<noteq> []" using ne by (auto simp: lower_def)
  moreover have "CHR ''#'' \<notin> set (normalize_entry v)" using ch nh by (rule keep)
  moreover have "newline \<notin> set (normalize_entry v)" using cn nn by (rule keep)
  ultimately show ?thesis using fx nc by (simp add: clean_entry_def)
qed

lemma merge_loop_source:
  "e \<in> set (merge_loop seen merged xs) \<Longrightarrow>
   e \<in> set merged \<or> (\<exists>x \<in> set xs. e = (normalize_entry (fst x), snd x))"
proof (induction xs arbitrary: seen merged)
  case Nil
  then show ?case by simp
next
  case (Cons x xs)
  obtain m c where x: "x = (m, c)" by (cases x)
  show ?case
  proof (cases "normalize_entry m \<in> seen")
    case True
    with Cons.prems have "e \<in> set (merge_loop seen merged xs)" by (simp add: x Let_def)
    from Cons.IH [OF this] show ?thesis by auto
  next
    case False
    with Cons.prems
    have "e \<in> set (merge_loop (insert (normalize_entry m) seen)
        (merged @ [(normalize_entry m, c)]) xs)"
      by (simp add: x Let_def)
    from Cons.IH [OF this] show ?thesis by (auto simp: x)
  qed
qed

lemma merge_entries_clean:
  assumes "\<forall>e \<in> set (old @ new). clean_entry e" and "merge_entries old new = Inr out"
  shows "\<forall>e \<in> set out. clean_entry e"
proof
  fix e assume e: "e \<in> set out"
  from assms(2) merge_entries_cases [of old new]
  have "set out = set (merge_loop {} [] (old @ new))" by auto
  with e merge_loop_source [of e "{}" "[]" "old @ new"]
  obtain x where x: "x \<in> set (old @ new)" and ex: "e = (normalize_entry (fst x), snd x)"
    by auto
  from assms(1) x have "clean_entry (fst x, snd x)" by simp
  then show "clean_entry e" unfolding ex by (rule normalize_entry_clean)
qed

lemma clean_entry_writable:
  "clean_entry e \<Longrightarrow>
   fst e \<noteq> [] \<and> \<not> startswith (fst e) ''#'' \<and> newline \<notin> set (fst e) \<and> newline \<notin> set (snd e)"
  by (cases "fst e") (auto simp: clean_entry_def startswith_def)

text \<open>
  The data path of \<^verbatim>\<open>main\<close>: what is read from the two files and merged meets the
  conditions under which the merge has no duplicate keys and the written text has one
  marker line and one final line feed.
\<close>

lemma read_merge_conditions:
  assumes "read_file fs tgt = Inr (header_old, entries_old)"
    and "read_file fs src = Inr (header_new, entries_new)"
    and "merge_entries entries_old entries_new = Inr merged"
  shows "(\<forall>e \<in> set (entries_old @ entries_new). lstrip (fst e) = fst e)
       \<and> (\<forall>h \<in> set header_old. newline \<notin> set h)
       \<and> (\<forall>e \<in> set merged. fst e \<noteq> [] \<and> \<not> startswith (fst e) ''#''
            \<and> newline \<notin> set (fst e) \<and> newline \<notin> set (snd e))"
proof -
  from read_file_clean [OF assms(1)] read_file_clean [OF assms(2)]
  have h: "\<forall>h \<in> set header_old. clean_line h"
    and es: "\<forall>e \<in> set (entries_old @ entries_new). clean_entry e"
    by auto
  from merge_entries_clean [OF es assms(3)] have "\<forall>e \<in> set merged. clean_entry e" .
  then have "\<forall>e \<in> set merged. fst e \<noteq> [] \<and> \<not> startswith (fst e) ''#''
            \<and> newline \<notin> set (fst e) \<and> newline \<notin> set (snd e)"
    using clean_entry_writable by blast
  moreover have "\<forall>e \<in> set (entries_old @ entries_new). lstrip (fst e) = fst e"
    using es by (simp add: clean_entry_def)
  moreover have "\<forall>h \<in> set header_old. newline \<notin> set h"
    using h by (simp add: clean_line_def)
  ultimately show ?thesis by blast
qed

section \<open>Where the merge leaves no two entries with one key\<close>

lemma normalize_entry_idem_at:
  assumes "startswith (lstrip e) ''@'' \<longrightarrow> startswith e ''@''"
  shows "normalize_entry (normalize_entry e) = normalize_entry e"
proof (cases "startswith e ''@''")
  case True
  then obtain r where e: "e = CHR ''@'' # r" by (cases e) (auto simp: startswith_at)
  have "\<not> isspace CHR ''@''" by code_simp
  then have "lstrip e = e" by (simp add: e lstrip_fixed_Cons)
  then show ?thesis by (rule normalize_entry_idem)
next
  case False
  with assms have na: "\<not> startswith (lstrip e) ''@''" by blast
  have ns: "\<not> startswith (strip e) ''@''"
  proof (cases "lstrip e")
    case Nil
    then show ?thesis by (simp add: strip_def rstrip_def startswith_def)
  next
    case (Cons c r)
    have "lstrip (c # r) = c # r" using Cons lstrip_idem [of e] by simp
    then have "\<not> isspace c" by (simp add: lstrip_fixed_Cons)
    then have "strip e = c # rstrip r" by (simp add: strip_def Cons rstrip_Cons)
    with na Cons show ?thesis by (simp add: startswith_at)
  qed
  from False have "normalize_entry e = strip e" by (simp add: normalize_entry_def)
  with ns show ?thesis by (simp add: normalize_entry_def strip_idem)
qed

text \<open>
  When no value of the input has white space before a leading \<^verbatim>\<open>@\<close>, the list that
  \<^verbatim>\<open>merge_entries\<close> returns holds no two entries whose values have the same normalized
  key.
\<close>

lemma merge_entries_distinct_keys:
  assumes "\<forall>e \<in> set (old @ new). startswith (lstrip (fst e)) ''@'' \<longrightarrow> startswith (fst e) ''@''"
    and "merge_entries old new = Inr out"
  shows "distinct (map (\<lambda>e. normalize_entry (fst e)) out)"
proof -
  have "normalize_entry (fst e) = fst e" if "e \<in> set out" for e
  proof -
    from that have "fst e \<in> normalize_entry ` fst ` set (old @ new)"
      using merge_entries_values(2) [OF assms(2)] by blast
    then obtain e' where "e' \<in> set (old @ new)" and "fst e = normalize_entry (fst e')"
      by blast
    then show ?thesis using assms(1) normalize_entry_idem_at by metis
  qed
  then have eq: "map (\<lambda>e. normalize_entry (fst e)) out = map fst out" by simp
  show ?thesis unfolding eq by (rule merge_entries_values(1) [OF assms(2)])
qed

text \<open>The merged list as a table from stored values to comments.\<close>

lemma first_comment_Cons:
  "first_comment k ((m, c) # xs) = (if normalize_entry m = k then Some c else first_comment k xs)"
  by (simp add: first_comment_def)

lemma map_of_snoc:
  "map_of (xs @ [(a, b)]) k =
     (case map_of xs k of Some c \<Rightarrow> Some c | None \<Rightarrow> if k = a then Some b else None)"
  by (simp add: map_add_def split: option.splits)

lemma merge_loop_map_of:
  "fst ` set merged \<subseteq> seen \<Longrightarrow>
   map_of (merge_loop seen merged xs) k =
     (case map_of merged k of
        Some c \<Rightarrow> Some c
      | None \<Rightarrow> if k \<in> seen then None else first_comment k xs)"
proof (induction xs arbitrary: seen merged)
  case Nil
  then show ?case by (simp add: first_comment_def split: option.splits)
next
  case (Cons x xs)
  obtain m c where x: "x = (m, c)" by (cases x)
  show ?case
  proof (cases "normalize_entry m \<in> seen")
    case True
    have "merge_loop seen merged (x # xs) = merge_loop seen merged xs"
      using True by (simp add: x Let_def)
    moreover have "k \<notin> seen \<Longrightarrow> first_comment k (x # xs) = first_comment k xs"
      using True by (auto simp: x first_comment_Cons)
    ultimately show ?thesis
      using Cons.IH [OF Cons.prems] by (simp split: option.splits)
  next
    case False
    let ?n = "normalize_entry m"
    have inv: "fst ` set (merged @ [(?n, c)]) \<subseteq> insert ?n seen"
      using Cons.prems by auto
    have l: "merge_loop seen merged (x # xs) = merge_loop (insert ?n seen) (merged @ [(?n, c)]) xs"
      using False by (simp add: x Let_def)
    show ?thesis
      unfolding l Cons.IH [OF inv] map_of_snoc
      using False by (auto simp: x first_comment_Cons split: option.splits)
  qed
qed

lemma merge_entries_map_of:
  assumes "merge_entries old new = Inr out"
  shows "map_of out k = first_comment k (old @ new)"
proof -
  let ?M = "merge_loop {} [] (old @ new)"
  from assms merge_entries_cases [of old new]
  have "set out = set ?M" by auto
  moreover have "distinct (map fst ?M)" by (rule merge_loop_distinct) simp_all
  moreover have "distinct (map fst out)" using assms by (rule merge_entries_values(1))
  ultimately have "map_of out = map_of ?M" by (simp add: map_of_inject_set)
  then show ?thesis using merge_loop_map_of [of "[]" "{}" "old @ new" k] by simp
qed

section \<open>The merge step on single entries\<close>

lemma normalize_entry_User: "normalize_entry ''@User'' = ''@user''"
  by code_simp

lemma normalize_entry_user: "normalize_entry ''@user'' = ''@user''"
  by code_simp

lemma sort_key_item_user: "sort_key_item (''@user'', c) = Inr (LexKey ''@user'')"
proof -
  have "\<not> isdigit (lstrip_chars {CHR ''-''} ''@user'')" by code_simp
  moreover have "lower ''@user'' = ''@user''" by code_simp
  ultimately show ?thesis by (simp add: sort_key_item_def)
qed

text \<open>
  Claim C6. Usernames are deduplicated without regard to letter case and stored
  lowercased: whatever the two comments are, merging the old entry \<^verbatim>\<open>@User\<close> with
  the new entry \<^verbatim>\<open>@user\<close> returns the single entry \<^verbatim>\<open>@user\<close> with the comment of
  the old one.
\<close>

theorem merge_entries_username_case:
  "merge_entries [(''@User'', c1)] [(''@user'', c2)] = Inr [(''@user'', c1)]"
  by (simp add: merge_entries_def sorted_by_def normalize_entry_User normalize_entry_user
      sort_key_item_user)

theorem merge_entries_username_case_witness:
  "merge_entries [(''@User'', ''spam'')] [(''@user'', ''other'')] = Inr [(''@user'', ''spam'')]"
  using merge_entries_username_case [of "''spam''" "''other''"] by simp

text \<open>
  Claim C5. On a duplicate key the first occurrence wins, value and comment. Whenever
  \<^verbatim>\<open>merge_entries\<close> returns, no stored value occurs twice in its result, the stored
  values are the normalized keys of the input, and the comment stored with a key is the
  comment of the first entry of \<^verbatim>\<open>old + new\<close> that has this key; every later entry
  with the key is discarded together with its comment. In particular, merging the old
  entry \<^verbatim>\<open>("123", "spam")\<close> with the new entry \<^verbatim>\<open>("123", "other reason")\<close>
  returns exactly \<^verbatim>\<open>[("123", "spam")]\<close>.
\<close>

theorem merge_entries_first_occurrence:
  "(merge_entries old new = Inr out
      \<longrightarrow> distinct (map fst out) \<and> map_of out k = first_comment k (old @ new))
   \<and> merge_entries [(''123'', ''spam'')] [(''123'', ''other reason'')] = Inr [(''123'', ''spam'')]"
proof (intro conjI impI)
  assume r: "merge_entries old new = Inr out"
  then show "distinct (map fst out)" by (rule merge_entries_values(1))
  from r show "map_of out k = first_comment k (old @ new)" by (rule merge_entries_map_of)
next
  show "merge_entries [(''123'', ''spam'')] [(''123'', ''other reason'')] = Inr [(''123'', ''spam'')]"
    by code_simp
qed

theorem merge_entries_first_occurrence_witness:
  "distinct (map fst [(''123'', ''spam''), (''@user'', ''a'')])
   \<and> map_of [(''123'', ''spam''), (''@user'', ''a'')] ''@user''
       = first_comment ''@user''
           ([(''@User'', ''a''), (''123'', ''spam'')] @ [(''123'', ''other reason''), (''@user'', ''b'')])
   \<and> first_comment ''@user''
           ([(''@User'', ''a''), (''123'', ''spam'')] @ [(''123'', ''other reason''), (''@user'', ''b'')])
       = Some ''a''"
proof -
  have h: "merge_entries [(''@User'', ''a''), (''123'', ''spam'')]
      [(''123'', ''other reason''), (''@user'', ''b'')] = Inr [(''123'', ''spam''), (''@user'', ''a'')]"
    by code_simp
  have v: "first_comment ''@user''
           ([(''@User'', ''a''), (''123'', ''spam'')] @ [(''123'', ''other reason''), (''@user'', ''b'')])
       = Some ''a''"
    by code_simp
  from merge_entries_first_occurrence [of "[(''@User'', ''a''), (''123'', ''spam'')]"
      "[(''123'', ''other reason''), (''@user'', ''b'')]" "[(''123'', ''spam''), (''@user'', ''a'')]"
      "''@user''"] h v
  show ?thesis by blast
qed

text \<open>
  Claim C3. The claim is that \<^verbatim>\<open>merge_entries\<close> never raises, in particular not
  on a value with more than one leading \<^verbatim>\<open>-\<close>. On the value \<^verbatim>\<open>--5\<close> the key
  function strips both signs, finds the digit, and hands the whole value to
  \<^verbatim>\<open>int\<close>, which raises \<^verbatim>\<open>ValueError\<close>; so does the merge.
\<close>

theorem merge_entries_double_minus_raises:
  "merge_entries [] [(''--5'', '''')] = Inl ValueError"
  by code_simp

section \<open>Reading a file that is not there\<close>

text \<open>
  Claim C10. \<^verbatim>\<open>read_file\<close> on a path that names nothing returns the empty header
  and the empty entry list, and does not fail.
\<close>

theorem read_file_missing: "fs p = None \<Longrightarrow> read_file fs p = Inr ([], [])"
  by (simp add: read_file_def)

theorem read_file_missing_witness:
  "Map.empty ''blacklist.txt'' = None \<and> read_file Map.empty ''blacklist.txt'' = Inr ([], [])"
  using read_file_missing [of Map.empty "''blacklist.txt''"] by simp

section \<open>Two entries with one key after the merge\<close>

text \<open>
  Claim C1. The claim is that the list returned by \<^verbatim>\<open>merge_entries\<close> never holds two
  entries whose values have the same normalized key. \<^verbatim>\<open>normalize_entry\<close> looks for the
  leading \<^verbatim>\<open>@\<close> before it trims the value, so a username with a blank in front is
  trimmed and keeps its capitals: merging that value of \<^verbatim>\<open>@User\<close> with \<^verbatim>\<open>@user\<close>
  returns both, and both have the key \<^verbatim>\<open>@user\<close>. With the blank behind the name
  instead, the value is lowercased and the two entries are merged into one.
\<close>

theorem merge_entries_leading_space_duplicate:
  "merge_entries [('' @User'', [])] [(''@user'', [])] = Inr [(''@User'', []), (''@user'', [])]
   \<and> normalize_entry ''@User'' = normalize_entry ''@user''
   \<and> merge_entries [(''@User '', [])] [(''@user'', [])] = Inr [(''@user'', [])]"
  by code_simp

section \<open>The order of the result and the order of the input\<close>

text \<open>
  Claim C4, as amended. Two inputs that are permutations of each other give the same
  sequence of values (or both raise) whenever no two different normalized values of the
  input have the same sort key; a value on which the key function raises has no key.
\<close>

theorem merge_entries_permutation:
  assumes perm: "mset (old @ new) = mset (old' @ new')"
    and inj: "\<forall>v \<in> normalize_entry ` fst ` set (old @ new).
              \<forall>w \<in> normalize_entry ` fst ` set (old @ new).
                \<forall>k. sort_key_item (v, []) = Inr k \<and> sort_key_item (w, []) = Inr k \<longrightarrow> v = w"
  shows "map_sum id (map fst) (merge_entries old new)
       = map_sum id (map fst) (merge_entries old' new')"
proof -
  let ?M = "merge_loop {} [] (old @ new)" and ?M' = "merge_loop {} [] (old' @ new')"
  let ?N = "normalize_entry ` fst ` set (old @ new)"
  let ?g = "\<lambda>x. projr (sort_key_item x)"
  have sets: "set (old @ new) = set (old' @ new')" using perm by (rule mset_eq_setD)
  have vM: "fst ` set ?M = ?N" using merge_loop_values [of "{}" "[]" "old @ new"] by simp
  have vM': "fst ` set ?M' = ?N"
    using merge_loop_values [of "{}" "[]" "old' @ new'"] sets by simp
  have key_fst: "sort_key_item x = sort_key_item (fst x, [])" for x
    by (simp add: sort_key_item_def)
  show ?thesis
  proof (cases "\<exists>v \<in> ?N. \<exists>e. sort_key_item (v, []) = Inl e")
    case True
    then obtain v e where v: "v \<in> ?N" and e: "sort_key_item (v, []) = Inl e" by blast
    from v vM obtain x where x: "x \<in> set ?M" "fst x = v" by force
    have "sort_key_item x = Inl e" using key_fst [of x] x(2) e by simp
    with x(1) have "\<exists>x \<in> set ?M. \<exists>e. sort_key_item x = Inl e" by blast
    then have l: "merge_entries old new = Inl ValueError"
      using merge_entries_cases [of old new] by force
    from v vM' obtain x' where x': "x' \<in> set ?M'" "fst x' = v" by force
    have "sort_key_item x' = Inl e" using key_fst [of x'] x'(2) e by simp
    with x'(1) have "\<exists>x \<in> set ?M'. \<exists>e. sort_key_item x = Inl e" by blast
    then have "merge_entries old' new' = Inl ValueError"
      using merge_entries_cases [of old' new'] by force
    with l show ?thesis by simp
  next
    case False
    have ok: "\<exists>k. sort_key_item (v, []) = Inr k" if "v \<in> ?N" for v
    proof (cases "sort_key_item (v, [])")
      case (Inl e)
      with False that show ?thesis by blast
    next
      case (Inr k)
      then show ?thesis by blast
    qed
    have okM: "\<exists>k. sort_key_item x = Inr k" if "x \<in> set ?M" for x
    proof -
      from that have "fst x \<in> ?N" unfolding vM [symmetric] by (rule imageI)
      from ok [OF this] show ?thesis using key_fst [of x] by simp
    qed
    have okM': "\<exists>k. sort_key_item x = Inr k" if "x \<in> set ?M'" for x
    proof -
      from that have "fst x \<in> ?N" unfolding vM' [symmetric] by (rule imageI)
      from ok [OF this] show ?thesis using key_fst [of x] by simp
    qed
    from okM have r: "merge_entries old new = Inr (sort_key ?g ?M)"
      using merge_entries_cases [of old new] by force
    from okM' have r': "merge_entries old' new' = Inr (sort_key ?g ?M')"
      using merge_entries_cases [of old' new'] by force
    let ?h = "\<lambda>v. projr (sort_key_item (v, []))"
    have gh: "?g x = ?h (fst x)" for x using key_fst [of x] by simp
    have inj_h: "inj_on ?h ?N"
    proof (rule inj_onI)
      fix v w assume v: "v \<in> ?N" and w: "w \<in> ?N" and eq: "?h v = ?h w"
      from ok [OF v] obtain k where kv: "sort_key_item (v, []) = Inr k" by blast
      from ok [OF w] obtain k' where kw: "sort_key_item (w, []) = Inr k'" by blast
      from eq kv kw have "k' = k" by simp
      with inj v w kv kw show "v = w" by blast
    qed
    define o1 where "o1 = map fst (sort_key ?g ?M)"
    define o2 where "o2 = map fst (sort_key ?g ?M')"
    have so: "set o1 = ?N" unfolding o1_def using vM by simp
    have so': "set o2 = ?N" unfolding o2_def using vM' by simp
    have d: "distinct o1" unfolding o1_def using merge_entries_values(1) [OF r] .
    have d': "distinct o2" unfolding o2_def using merge_entries_values(1) [OF r'] .
    have m: "map ?h o1 = map ?g (sort_key ?g ?M)"
      unfolding o1_def by (simp add: comp_def gh [symmetric])
    have m': "map ?h o2 = map ?g (sort_key ?g ?M')"
      unfolding o2_def by (simp add: comp_def gh [symmetric])
    have s1: "sorted (map ?h o1)" unfolding m by (rule sorted_sort_key)
    have s2: "sorted (map ?h o2)" unfolding m' by (rule sorted_sort_key)
    have d1: "distinct (map ?h o1)"
      using d inj_h by (simp add: distinct_map so)
    have d2: "distinct (map ?h o2)"
      using d' inj_h by (simp add: distinct_map so')
    have "set (map ?h o1) = set (map ?h o2)"
      by (simp add: so so')
    with s1 d1 s2 d2 have eq: "map ?h o1 = map ?h o2"
      by (rule sorted_distinct_set_unique)
    have "inj_on ?h (set o1 \<union> set o2)"
      using inj_h by (simp add: so so')
    with eq have "o1 = o2" by (simp only: inj_on_map_eq_map)
    then show ?thesis by (simp add: r r' o1_def o2_def)
  qed
qed

theorem merge_entries_permutation_witness:
  "map_sum id (map fst) (merge_entries [(''10'', ''a''), (''@zeta'', [])] [(''2'', [])])
     = map_sum id (map fst) (merge_entries [(''2'', []), (''@zeta'', [])] [(''10'', ''a'')])
   \<and> map_sum id (map fst) (merge_entries [(''--5'', []), (''7'', [])] [(''--6'', [])])
     = map_sum id (map fst) (merge_entries [(''--6'', [])] [(''7'', []), (''--5'', [])])"
proof -
  have p1: "mset ([(''10'', ''a''), (''@zeta'', [])] @ [(''2'', [])])
     = mset ([(''2'', []), (''@zeta'', [])] @ [(''10'', ''a'')])"
    by simp
  have n1: "normalize_entry ''10'' = ''10''" "normalize_entry ''@zeta'' = ''@zeta''"
    "normalize_entry ''2'' = ''2''"
    by code_simp+
  have k1: "sort_key_item (''10'', []) = Inr (NumKey 10)"
    "sort_key_item (''@zeta'', []) = Inr (LexKey ''@zeta'')"
    "sort_key_item (''2'', []) = Inr (NumKey 2)"
    by code_simp+
  have i1: "\<forall>v \<in> normalize_entry ` fst ` set ([(''10'', ''a''), (''@zeta'', [])] @ [(''2'', [])]).
      \<forall>w \<in> normalize_entry ` fst ` set ([(''10'', ''a''), (''@zeta'', [])] @ [(''2'', [])]).
        \<forall>k. sort_key_item (v, []) = Inr k \<and> sort_key_item (w, []) = Inr k \<longrightarrow> v = w"
    by (simp add: n1 k1)
  have p2: "mset ([(''--5'', []), (''7'', [])] @ [(''--6'', [])])
     = mset ([(''--6'', [])] @ [(''7'', []), (''--5'', [])])"
    by simp
  have n2: "normalize_entry ''--5'' = ''--5''" "normalize_entry ''7'' = ''7''"
    "normalize_entry ''--6'' = ''--6''"
    by code_simp+
  have k2: "sort_key_item (''--5'', []) = Inl ValueError"
    "sort_key_item (''7'', []) = Inr (NumKey 7)"
    "sort_key_item (''--6'', []) = Inl ValueError"
    by code_simp+
  have i2: "\<forall>v \<in> normalize_entry ` fst ` set ([(''--5'', []), (''7'', [])] @ [(''--6'', [])]).
      \<forall>w \<in> normalize_entry ` fst ` set ([(''--5'', []), (''7'', [])] @ [(''--6'', [])]).
        \<forall>k. sort_key_item (v, []) = Inr k \<and> sort_key_item (w, []) = Inr k \<longrightarrow> v = w"
    by (simp add: n2 k2)
  from merge_entries_permutation [OF p1 i1] merge_entries_permutation [OF p2 i2]
  show ?thesis by (rule conjI)
qed

text \<open>
  Without that condition the claim does not hold: \<^verbatim>\<open>5\<close> and \<^verbatim>\<open>05\<close> are different
  values with the same key, the sort keeps them in the order of the input, and the two
  orders of the input give two different results.
\<close>

theorem merge_entries_permutation_counterexample:
  "mset ([(''5'', ''''), (''05'', '''')] @ []) = mset ([(''05'', ''''), (''5'', '''')] @ [])
   \<and> map_sum id (map fst) (merge_entries [(''5'', ''''), (''05'', '''')] []) = Inr [''5'', ''05'']
   \<and> map_sum id (map fst) (merge_entries [(''05'', ''''), (''5'', '''')] []) = Inr [''05'', ''5'']"
proof -
  have "merge_entries [(''5'', ''''), (''05'', '''')] [] = Inr [(''5'', ''''), (''05'', '''')]"
    by code_simp
  moreover have "merge_entries [(''05'', ''''), (''5'', '''')] [] = Inr [(''05'', ''''), (''5'', '''')]"
    by code_simp
  ultimately show ?thesis by simp
qed

section \<open>The composite key on a value with two signs\<close>

text \<open>
  Claim C2. The claim is that \<^verbatim>\<open>merge_entries\<close> orders its result by the composite
  key of the specification, which takes one leading \<^verbatim>\<open>-\<close> off a value before it looks
  for digits. By that key the value \<^verbatim>\<open>--5\<close> is not numeric and sorts after
  \<^verbatim>\<open>2\<close>. The code takes every leading \<^verbatim>\<open>-\<close> off, calls the value numeric, and
  raises when it converts it, so the merge of \<^verbatim>\<open>--5\<close> and \<^verbatim>\<open>2\<close> returns no
  list. (On every input for which the merge returns, its result is ordered by the key
  of the specification: lemma \<open>merge_entries_sorted_by_spec_key\<close>.)
\<close>

theorem merge_entries_key_divergence:
  "merge_entries [] [(''--5'', ''''), (''2'', '''')] = Inl ValueError
   \<and> sort_key spec_sort_key (merge_loop {} [] ([] @ [(''--5'', ''''), (''2'', '''')]))
       = [(''2'', ''''), (''--5'', '''')]"
  by code_simp

section \<open>The freshness marker and the final line feed\<close>

text \<open>
  Claim C7, as amended. When no header line, value, comment or timestamp contains a line
  feed and every value is non-empty and does not start with \<^verbatim>\<open>#\<close> (which holds for
  what \<^verbatim>\<open>read_file\<close> and \<^verbatim>\<open>merge_entries\<close> produce), the text of
  \<^verbatim>\<open>build_contents\<close> has exactly one line that starts with \<^verbatim>\<open># Merged on \<close>, and
  it ends with exactly one line feed.
\<close>

theorem build_contents_one_marker:
  assumes ts: "newline \<notin> set timestamp"
    and hdr: "\<forall>h \<in> set header. newline \<notin> set h"
    and ent: "\<forall>e \<in> set entries. fst e \<noteq> [] \<and> \<not> startswith (fst e) ''#''
                \<and> newline \<notin> set (fst e) \<and> newline \<notin> set (snd e)"
  shows "marker_lines (build_contents timestamp header entries) = 1
       \<and> trailing_newlines (build_contents timestamp header entries) = 1"
proof -
  define P where "P = (\<lambda>l. startswith l ''# Merged on '')"
  define gen where "gen = ''# Merged on '' @ timestamp"
  define ho where "ho = filter (\<lambda>h. \<not> P h) header @ [gen]"
  define rs where "rs = map render_entry entries"
  define H where "H = join [newline] ho"
  define body where "body = join [newline] rs"
  have bc: "build_contents timestamp header entries =
      join [newline, newline] ([H] @ (if body \<noteq> [] then [body] else [])) @ [newline]"
    by (simp add: build_contents_def Let_def H_def ho_def gen_def P_def body_def rs_def)
  have gen_nl: "newline \<notin> set gen" using ts by (auto simp: gen_def newline_def)
  have gen_ne: "gen \<noteq> []" by (simp add: gen_def)
  have Pgen: "P gen" by (simp add: P_def gen_def startswith_def)
  have ho_ne: "ho \<noteq> []" by (simp add: ho_def)
  have ho_nl: "\<forall>x \<in> set ho. newline \<notin> set x" using hdr gen_nl by (auto simp: ho_def)
  have ho_P: "filter P ho = [gen]" using Pgen by (simp add: ho_def)
  have last_H: "H \<noteq> [] \<and> last H = last gen"
    unfolding H_def using last_join [of ho "[newline]"] gen_ne by (simp add: ho_def)
  have last_gen: "last gen \<noteq> newline" using gen_nl gen_ne last_in_set by metis
  have rs_nl: "\<forall>x \<in> set rs. newline \<notin> set x"
    using ent render_entry_props(3) by (auto simp: rs_def)
  have rs_P: "filter P rs = []"
    using ent render_entry_props(2) by (auto simp: rs_def P_def filter_empty_conv)
  have rs_ne: "\<forall>x \<in> set rs. x \<noteq> []"
    using ent render_entry_props(1) by (auto simp: rs_def)
  show ?thesis
  proof (cases "entries = []")
    case True
    have t: "build_contents timestamp header entries = H @ [newline]"
      unfolding bc by (simp add: body_def rs_def True)
    have "split_on newline (H @ [newline]) = ho @ [[]]"
      unfolding H_def using split_on_join [OF ho_ne ho_nl, of "[]"] by simp
    then have "text_lines (H @ [newline]) = ho" by (simp add: text_lines_def)
    then have "marker_lines (H @ [newline]) = 1"
      using ho_P by (simp add: marker_lines_def P_def [symmetric])
    moreover have "trailing_newlines (H @ [newline]) = 1"
      using last_H last_gen by (intro trailing_newlines_one) simp_all
    ultimately show ?thesis by (simp add: t)
  next
    case False
    then have rne: "rs \<noteq> []" by (simp add: rs_def)
    then have lr: "last rs \<noteq> []" using rs_ne by simp
    have lb: "body \<noteq> [] \<and> last body = last (last rs)"
      unfolding body_def using rne lr by (rule last_join)
    have "last (last rs) \<in> set (last rs)" using lr by simp
    moreover have "newline \<notin> set (last rs)" using rs_nl rne by simp
    ultimately have lbn: "last body \<noteq> newline" using lb by metis
    have t: "build_contents timestamp header entries =
        H @ newline # (newline # (body @ [newline]))"
      using lb by (simp add: bc)
    have "split_on newline (body @ newline # []) = rs @ [[]]"
      unfolding body_def using split_on_join [OF rne rs_nl, of "[]"] by simp
    then have "split_on newline (newline # (body @ [newline])) = [] # rs @ [[]]"
      by simp
    then have "split_on newline (H @ newline # (newline # (body @ [newline])))
        = ho @ [] # rs @ [[]]"
      unfolding H_def using split_on_join [OF ho_ne ho_nl, of "newline # (body @ [newline])"]
      by simp
    then have "text_lines (H @ newline # (newline # (body @ [newline]))) = ho @ [] # rs"
      by (simp add: text_lines_def butlast_append)
    then have "marker_lines (H @ newline # (newline # (body @ [newline]))) = 1"
      using ho_P rs_P by (simp add: marker_lines_def P_def [symmetric]) (simp add: P_def startswith_def)
    moreover have "trailing_newlines ((H @ newline # newline # body) @ [newline]) = 1"
      using lb lbn by (intro trailing_newlines_one) simp_all
    ultimately show ?thesis by (simp add: t)
  qed
qed

theorem build_contents_one_marker_witness:
  "marker_lines (build_contents ''2024-01-01 00:00 UTC''
         [''# my list'', ''# Merged on 2023-12-31 23:00 UTC''] [(''123'', ''spam''), (''456'', '''')]) = 1
   \<and> trailing_newlines (build_contents ''2024-01-01 00:00 UTC''
         [''# my list'', ''# Merged on 2023-12-31 23:00 UTC''] [(''123'', ''spam''), (''456'', '''')]) = 1"
proof -
  have h1: "newline \<notin> set ''2024-01-01 00:00 UTC''"
    by (simp add: newline_def)
  have h2: "\<forall>h \<in> set [''# my list'', ''# Merged on 2023-12-31 23:00 UTC'']. newline \<notin> set h"
    by (simp add: newline_def)
  have h3: "\<forall>e \<in> set [(''123'', ''spam''), (''456'', '''')].
         fst e \<noteq> [] \<and> \<not> startswith (fst e) ''#''
         \<and> newline \<notin> set (fst e) \<and> newline \<notin> set (snd e)"
    by (simp add: newline_def startswith_def)
  show ?thesis by (rule build_contents_one_marker [OF h1 h2 h3])
qed

text \<open>
  For every header list and every entry list the claim does not hold: a value that
  starts with the marker prefix is written as a second marker line, so is the second
  line of a header element that contains a line feed, and an empty last value leaves two
  line feeds at the end of the text.
\<close>

theorem build_contents_one_marker_counterexample:
  "marker_lines (build_contents ''2024-01-01 00:00 UTC'' [] [(''# Merged on x'', '''')]) = 2
   \<and> marker_lines (build_contents ''2024-01-01 00:00 UTC''
        [''# a'' @ [newline] @ ''# Merged on x''] []) = 2
   \<and> trailing_newlines (build_contents ''2024-01-01 00:00 UTC'' [] [(''1'', ''''), ('''', '''')]) = 2"
  by code_simp

section \<open>Duplicates and formats in the validator\<close>

text \<open>
  Claim C8. When the lowercased main part of a line equals that of an earlier line that
  the validator did not skip, the later line is reported as \<^verbatim>\<open>duplicate\<close> under its
  line number; and a line number reported as \<^verbatim>\<open>duplicate\<close> is never also reported as
  \<^verbatim>\<open>invalid format\<close>, whatever its main part looks like.
\<close>

theorem validate_duplicate_only:
  "(i < j \<and> j < length lines \<and> main_part_of (lines ! i) = Some m
      \<and> main_part_of (lines ! j) = Some m' \<and> lower m' = lower m
    \<longrightarrow> (Suc j, strip (lines ! j), ''duplicate'') \<in> set (validate lines))
   \<and> ((n, l, ''duplicate'') \<in> set (validate lines)
    \<longrightarrow> (n, l', ''invalid format'') \<notin> set (validate lines))"
proof (intro conjI impI)
  assume a: "i < j \<and> j < length lines \<and> main_part_of (lines ! i) = Some m
      \<and> main_part_of (lines ! j) = Some m' \<and> lower m' = lower m"
  then have j: "j < length lines" and mj: "main_part_of (lines ! j) = Some m'"
    by simp_all
  have ex: "lower m' \<in> {} \<or> (\<exists>i<j. \<exists>m. main_part_of (lines ! i) = Some m \<and> lower m = lower m')"
    using a by metis
  from validate_loop_duplicate [OF j mj ex, of 1]
  have "(1 + j, strip (lines ! j), ''duplicate'') \<in> set (validate_loop 1 {} [] lines)" .
  then show "(Suc j, strip (lines ! j), ''duplicate'') \<in> set (validate lines)"
    by (simp add: validate_def)
next
  assume d: "(n, l, ''duplicate'') \<in> set (validate lines)"
  show "(n, l', ''invalid format'') \<notin> set (validate lines)"
  proof
    assume "(n, l', ''invalid format'') \<in> set (validate lines)"
    with d have "(l, ''duplicate'') = (l', ''invalid format'')"
      using validate_loop_distinct [of 1 "{}" lines] unfolding validate_def
      by (rule_tac eq_key_imp_eq_value)
    then show False by simp
  qed
qed

theorem validate_duplicate_only_witness:
  "(0::nat) < 1 \<and> 1 < length [''@Foo'', ''@foo'']
   \<and> main_part_of ([''@Foo'', ''@foo''] ! 0) = Some ''@Foo''
   \<and> main_part_of ([''@Foo'', ''@foo''] ! 1) = Some ''@foo''
   \<and> lower ''@foo'' = lower ''@Foo''
   \<and> (Suc 1, ''@foo'', ''duplicate'') \<in> set (validate [''@Foo'', ''@foo''])
   \<and> (Suc 1, ''@foo'', ''invalid format'') \<notin> set (validate [''@Foo'', ''@foo''])"
proof -
  have h: "(0::nat) < 1 \<and> 1 < length [''@Foo'', ''@foo'']
   \<and> main_part_of ([''@Foo'', ''@foo''] ! 0) = Some ''@Foo''
   \<and> main_part_of ([''@Foo'', ''@foo''] ! 1) = Some ''@foo''
   \<and> lower ''@foo'' = lower ''@Foo''"
    by code_simp
  have s: "strip ''@foo'' = ''@foo''" by code_simp
  from validate_duplicate_only [of 0 1 "[''@Foo'', ''@foo'']" "''@Foo''" "''@foo''" "Suc 1" "''@foo''" "''@foo''"] h
  show ?thesis by (simp add: s)
qed



end
